theory Spec2Isabelle
  imports Complex_Main "HOL-Library.Log_Nat"
begin

section \<open>The live duplex audio session of \<open>GeminiService\<close>\<close>

text \<open>
  This theory embeds the live-session part of \<^verbatim>\<open>src/services/geminiService.ts\<close>:
  the fields of the class \<^verbatim>\<open>GeminiService\<close>, the two transcript variables and the
  device handles captured by the closures of \<^verbatim>\<open>connectLive\<close>, the body of the
  \<^verbatim>\<open>onmessage\<close> callback, the \<^verbatim>\<open>stop\<close> closure and \<^verbatim>\<open>stopAudio\<close>.

  Conventions of the embedding.
  \<^item> A JavaScript number is an IEEE 754 double. The finite doubles are rationals, and the
    model computes with them as the source does: \<^verbatim>\<open>Math.max\<close> and comparison are exact,
    and the sum of line 152 and the quotient inside it are each rounded to the nearest
    double, ties to even (\<open>binary64\<close> below). The value stored in
    \<^verbatim>\<open>playbackRate.value\<close> is rounded to single precision (\<open>binary32\<close>). Infinities
    and NaN are not modelled: a quotient by zero and a result of magnitude \<open>2 ^ 1024\<close> or
    more are outside the model, and the general theorems about start times and clock
    positions assume a rate that is not zero.
  \<^item> The handler of one message has run to its end before the next event is handled.
    Inside one run, the \<^verbatim>\<open>await\<close>s of the source are the points where callbacks
    registered with \<^verbatim>\<open>sessionPromise.then\<close> run; the session promise is fulfilled
    whenever a message arrives, so such a callback runs at the next \<^verbatim>\<open>await\<close> or,
    failing one, when the handler returns.
  \<^item> What the code does to the outside world (callbacks invoked, responses sent on the
    channel, audio sources started and stopped) is appended to a trace kept in the state.
  \<^item> A rejected \<^verbatim>\<open>await\<close> leaves the handler at once; the state reached so far stays.
\<close>

subsection \<open>Numbers\<close>

text \<open>
  \<open>exponentOf x\<close> is the exponent \<open>e\<close> with \<open>2 ^ e \<le> x < 2 ^ (e + 1)\<close> of a positive
  rational, found from the bit lengths of its numerator and denominator.
\<close>

definition exponentOf :: "rat \<Rightarrow> int" where
  "exponentOf x =
     (let (a, b) = quotient_of x; e = bitlen a - bitlen b
      in if 2 powi e \<le> x then e else e - 1)"

text \<open>The integer nearest to a rational; of two equally near ones the even one.\<close>

definition roundEven :: "rat \<Rightarrow> int" where
  "roundEven y =
     (let n = \<lfloor>y\<rfloor>; r = y - of_int n
      in if r < 1 / 2 then n else if 1 / 2 < r then n + 1 else if even n then n else n + 1)"

text \<open>
  Rounding to the nearest binary floating-point number with \<open>p\<close> significant bits whose
  least exponent of the last place is \<open>qmin\<close> (gradual underflow below it).
\<close>

definition roundBinary :: "nat \<Rightarrow> int \<Rightarrow> rat \<Rightarrow> rat" where
  "roundBinary p qmin x =
     (if x = 0 then 0
      else (let q = max (exponentOf \<bar>x\<bar> - (int p - 1)) qmin
            in of_int (roundEven (x / 2 powi q)) * 2 powi q))"

definition binary64 :: "rat \<Rightarrow> rat" where
  "binary64 = roundBinary 53 (- 1074)"

definition binary32 :: "rat \<Rightarrow> rat" where
  "binary32 = roundBinary 24 (- 149)"

text \<open>The operators \<^verbatim>\<open>+\<close> and \<^verbatim>\<open>/\<close> of the source on two doubles: the exact result,
  rounded.\<close>

definition addDouble :: "rat \<Rightarrow> rat \<Rightarrow> rat" where
  "addDouble a b = binary64 (a + b)"

definition divDouble :: "rat \<Rightarrow> rat \<Rightarrow> rat" where
  "divDouble a b = binary64 (a / b)"

subsection \<open>Data\<close>

text \<open>
  An \<^verbatim>\<open>AudioBufferSourceNode\<close> created at line 146. Object identity is the number
  \<open>sid\<close>, taken from a counter; \<open>startAt\<close> is the argument given to \<^verbatim>\<open>source.start\<close>,
  \<open>bufferDuration\<close> is \<^verbatim>\<open>audioBuffer.duration\<close>, \<open>playbackRate\<close> is
  \<^verbatim>\<open>source.playbackRate.value\<close>, a single-precision parameter.
\<close>

record source =
  sid :: nat
  startAt :: rat
  bufferDuration :: rat
  playbackRate :: rat

text \<open>One entry of \<^verbatim>\<open>message.toolCall.functionCalls\<close>.\<close>

record function_call =
  fc_id :: string
  fc_name :: string
  fc_args :: string

text \<open>One entry of \<^verbatim>\<open>message.serverContent.modelTurn.parts\<close>; \<open>inlineData\<close> is
  \<^verbatim>\<open>part.inlineData?.data\<close>, the base64 text of an audio chunk.\<close>

record part =
  inlineData :: "string option"

text \<open>
  A \<^verbatim>\<open>LiveServerMessage\<close>, with the fields of \<^verbatim>\<open>serverContent\<close> that the handler reads
  flattened into it: \<open>parts\<close> is \<^verbatim>\<open>serverContent?.modelTurn?.parts || []\<close>.
\<close>

record message =
  toolCall :: "function_call list option"
  parts :: "part list"
  outputTranscription :: "string option"
  inputTranscription :: "string option"
  turnComplete :: bool
  interrupted :: bool

text \<open>
  The observable effects, in the order in which the code performs them.
  \<open>ToolCallInvoked\<close> is the call of \<^verbatim>\<open>callbacks.onToolCall\<close> at line 136;
  \<open>ToolResponseIssued\<close> is the call of \<^verbatim>\<open>sendToolResponse\<close> inside the callback that
  line 137 registers.
\<close>

datatype event =
    ToolCallInvoked string string
  | ToolResponseIssued string string string
  | OnTranscription string bool
  | OnTurnComplete string string
  | OnError string
  | SourceStarted source
  | SourceStopped nat

text \<open>A device or channel handle: not yet acquired, held, or released.\<close>

datatype handle = Absent | Held | Released

text \<open>
  The state: the private fields of \<^verbatim>\<open>GeminiService\<close> (lines 41 to 45), the variables
  declared by \<^verbatim>\<open>connectLive\<close> (lines 108 to 120), and the trace. \<open>audioContext\<close> is
  \<open>None\<close> for \<^verbatim>\<open>null\<close> and otherwise holds the value that \<^verbatim>\<open>audioContext.currentTime\<close>
  reads; \<open>speed\<close> is \<^verbatim>\<open>currentAudioSettings.speed\<close>; \<open>activeSources\<close> lists the
  members of the JavaScript \<^verbatim>\<open>Set\<close> in insertion order.
\<close>

record service =
  audioContext :: "rat option"
  outputNode :: bool
  nextStartTime :: rat
  activeSources :: "source list"
  speed :: rat
  sourceCount :: nat
  inputCtx :: handle
  stream :: handle
  channel :: handle
  currentOutputTranscription :: string
  currentInputTranscription :: string
  trace :: "event list"

text \<open>The outcome of an asynchronous body: it ran to its end, or an awaited promise
  rejected with the given reason; both carry the state reached.\<close>

datatype outcome = Completed service | Rejected string service

fun state_of :: "outcome \<Rightarrow> service" where
  "state_of (Completed s) = s"
| "state_of (Rejected e s) = s"

fun completed :: "outcome \<Rightarrow> bool" where
  "completed (Completed s) = True"
| "completed (Rejected e s) = False"

definition emit :: "event \<Rightarrow> service \<Rightarrow> service" where
  "emit e s = s\<lparr>trace := trace s @ [e]\<rparr>"

text \<open>A freshly constructed \<^verbatim>\<open>GeminiService\<close> (field initialisers, lines 41 to 45).\<close>

definition initial :: service where
  "initial = \<lparr>audioContext = None, outputNode = False, nextStartTime = 0,
     activeSources = [], speed = 1, sourceCount = 0,
     inputCtx = Absent, stream = Absent, channel = Absent,
     currentOutputTranscription = [], currentInputTranscription = [], trace = []\<rparr>"

subsection \<open>The playback scheduler\<close>

text \<open>\<^verbatim>\<open>ensureAudioContext\<close> (lines 47 to 55): the context is created once; a new
  context's clock reads \<open>0\<close>.\<close>

definition ensureAudioContext :: "service \<Rightarrow> service" where
  "ensureAudioContext s =
     (if audioContext s = None then s\<lparr>audioContext := Some 0, outputNode := True\<rparr> else s)"

text \<open>The environment: the output clock now reads \<open>t\<close>.\<close>

definition advanceClock :: "rat \<Rightarrow> service \<Rightarrow> service" where
  "advanceClock t s = s\<lparr>audioContext := map_option (\<lambda>_. t) (audioContext s)\<rparr>"

text \<open>
  The body of the scheduling branch (lines 144 to 153) for a decoded buffer of duration
  \<open>d\<close>, when the clock reads \<open>now\<close>. Line 144 stores the maximum first; lines 151 and 152
  read the stored value. Line 152 divides and adds in double precision: the quotient is
  rounded, and so is the sum. The node returned by \<^verbatim>\<open>createBufferSource\<close> is a new
  object, so \<^verbatim>\<open>activeSources.add\<close> appends it.
\<close>

definition scheduleBuffer :: "rat \<Rightarrow> rat \<Rightarrow> service \<Rightarrow> service" where
  "scheduleBuffer now d s =
     (let s1 = s\<lparr>nextStartTime := max (nextStartTime s) now\<rparr>;
          src = \<lparr>sid = sourceCount s1, startAt = nextStartTime s1,
                 bufferDuration = d, playbackRate = binary32 (speed s1)\<rparr>;
          s2 = emit (SourceStarted src) (s1\<lparr>sourceCount := Suc (sourceCount s1)\<rparr>);
          s3 = s2\<lparr>nextStartTime := addDouble (nextStartTime s2) (divDouble d (speed s2))\<rparr>
      in s3\<lparr>activeSources := activeSources s3 @ [src]\<rparr>)"

text \<open>
  One iteration of the loop over the parts (lines 141 to 155). \<open>dec\<close> stands for
  \<^verbatim>\<open>decodeAudioData(decode(_), ...)\<close> of \<^verbatim>\<open>utils/audioUtils.ts\<close> and gives the duration of
  the decoded buffer. An empty string is falsy in the guard of line 143.
\<close>

definition schedulePart :: "(string \<Rightarrow> rat) \<Rightarrow> part \<Rightarrow> service \<Rightarrow> service" where
  "schedulePart dec p s =
     (case inlineData p of
        None \<Rightarrow> s
      | Some base64Audio \<Rightarrow>
          (case audioContext s of
             None \<Rightarrow> s
           | Some now \<Rightarrow>
               if base64Audio \<noteq> [] \<and> outputNode s
               then scheduleBuffer now (dec base64Audio) s else s))"

text \<open>The guard of line 143.\<close>

definition audible :: "part \<Rightarrow> service \<Rightarrow> bool" where
  "audible p s =
     (case inlineData p of
        None \<Rightarrow> False
      | Some base64Audio \<Rightarrow> base64Audio \<noteq> [] \<and> audioContext s \<noteq> None \<and> outputNode s)"

text \<open>
  Running the callbacks that are registered on the session promise: each sends its
  response. \<open>q\<close> lists what the callbacks registered and not yet run will send.
\<close>

definition runCallbacks :: "event list \<Rightarrow> service \<Rightarrow> service" where
  "runCallbacks q s = s\<lparr>trace := trace s @ q\<rparr>"

text \<open>
  The loop over the parts (lines 141 to 155), with the callbacks \<open>q\<close> still to run when it
  is entered; it returns those still to run when it is left. A part that passes the guard
  suspends the handler at the \<^verbatim>\<open>await\<close> of line 145, where the registered callbacks
  run. Line 144, before that \<^verbatim>\<open>await\<close>, adds nothing to the trace and the callbacks
  touch nothing but the trace, so the callbacks are run here before the body of the part.
\<close>

fun scheduleParts ::
  "(string \<Rightarrow> rat) \<Rightarrow> part list \<Rightarrow> event list \<Rightarrow> service \<Rightarrow> event list \<times> service" where
  "scheduleParts dec [] q s = (q, s)"
| "scheduleParts dec (p # ps) q s =
     (if audible p s
      then scheduleParts dec ps [] (schedulePart dec p (runCallbacks q s))
      else scheduleParts dec ps q s)"

text \<open>The \<^verbatim>\<open>ended\<close> listener registered at line 150, for the source with identity \<open>k\<close>.\<close>

definition sourceEnded :: "nat \<Rightarrow> service \<Rightarrow> service" where
  "sourceEnded k s = s\<lparr>activeSources := filter (\<lambda>x. sid x \<noteq> k) (activeSources s)\<rparr>"

text \<open>\<^verbatim>\<open>stopAudio\<close> (lines 205 to 209). Every member of the set has been started, so
  \<^verbatim>\<open>s.stop()\<close> does not throw and the \<^verbatim>\<open>catch\<close> is never entered.\<close>

definition stopAudio :: "service \<Rightarrow> service" where
  "stopAudio s =
     s\<lparr>trace := trace s @ map (\<lambda>x. SourceStopped (sid x)) (activeSources s),
       activeSources := [], nextStartTime := 0\<rparr>"

subsection \<open>The message handler\<close>

text \<open>
  The loop over the function calls (lines 135 to 138), with the callbacks \<open>q\<close> still to
  run when it is entered; it returns the outcome and the callbacks still to run. \<open>h\<close> is
  \<^verbatim>\<open>callbacks.onToolCall\<close>: \<open>Inr\<close> is the value the awaited promise resolves to,
  \<open>Inl\<close> the reason it rejects with (or the exception thrown). Line 136 calls the handler
  and then suspends at its \<^verbatim>\<open>await\<close>, where the registered callbacks run; a rejection
  is raised after that. Line 137 does not send: it registers the callback that will.
\<close>

fun dispatchToolCalls ::
  "(string \<Rightarrow> string \<Rightarrow> string + string) \<Rightarrow> function_call list \<Rightarrow> event list \<Rightarrow> service
     \<Rightarrow> outcome \<times> event list" where
  "dispatchToolCalls h [] q s = (Completed s, q)"
| "dispatchToolCalls h (fc # fcs) q s =
     (let s1 = emit (ToolCallInvoked (fc_name fc) (fc_args fc)) s;
          s2 = runCallbacks q s1
      in case h (fc_name fc) (fc_args fc) of
           Inl e \<Rightarrow> (Rejected e s2, [])
         | Inr result \<Rightarrow>
             dispatchToolCalls h fcs [ToolResponseIssued (fc_id fc) (fc_name fc) result] s2)"

text \<open>Lines 157 to 165.\<close>

definition accumulateTranscription :: "message \<Rightarrow> service \<Rightarrow> service" where
  "accumulateTranscription m s =
     (case outputTranscription m of
        Some text \<Rightarrow>
          (let s1 = s\<lparr>currentOutputTranscription := currentOutputTranscription s @ text\<rparr>
           in emit (OnTranscription (currentOutputTranscription s1) False) s1)
      | None \<Rightarrow>
          (case inputTranscription m of
             Some text \<Rightarrow>
               (let s1 = s\<lparr>currentInputTranscription := currentInputTranscription s @ text\<rparr>
                in emit (OnTranscription (currentInputTranscription s1) True) s1)
           | None \<Rightarrow> s))"

text \<open>Lines 167 to 171.\<close>

definition completeTurn :: "message \<Rightarrow> service \<Rightarrow> service" where
  "completeTurn m s =
     (if turnComplete m
      then (emit (OnTurnComplete (currentInputTranscription s) (currentOutputTranscription s)) s)
             \<lparr>currentOutputTranscription := [], currentInputTranscription := []\<rparr>
      else s)"

text \<open>Line 172.\<close>

definition interruptedSignal :: "message \<Rightarrow> service \<Rightarrow> service" where
  "interruptedSignal m s = (if interrupted m then stopAudio s else s)"

text \<open>
  The whole handler (lines 133 to 173). No callback is waiting when it is entered; those
  still waiting at its end run when it returns.
\<close>

definition onmessage ::
  "(string \<Rightarrow> string \<Rightarrow> string + string) \<Rightarrow> (string \<Rightarrow> rat) \<Rightarrow> message \<Rightarrow> service \<Rightarrow> outcome" where
  "onmessage h dec m s =
     (case (case toolCall m of
              None \<Rightarrow> (Completed s, [])
            | Some functionCalls \<Rightarrow> dispatchToolCalls h functionCalls [] s) of
        (Rejected e s1, q) \<Rightarrow> Rejected e s1
      | (Completed s1, q) \<Rightarrow>
          (case scheduleParts dec (parts m) q s1 of
             (q', s2) \<Rightarrow>
               Completed (runCallbacks q' (interruptedSignal m (completeTurn m
                 (accumulateTranscription m s2))))))"

text \<open>
  Messages are handled one after the other, each when the output clock reads the time
  paired with it; a rejected handler does not stop the handling of later messages.
\<close>

fun arrivals ::
  "(string \<Rightarrow> string \<Rightarrow> string + string) \<Rightarrow> (string \<Rightarrow> rat) \<Rightarrow> (rat \<times> message) list \<Rightarrow> service \<Rightarrow> service" where
  "arrivals h dec [] s = s"
| "arrivals h dec ((t, m) # tms) s =
     arrivals h dec tms (state_of (onmessage h dec m (advanceClock t s)))"

subsection \<open>Session start and stop\<close>

text \<open>
  \<^verbatim>\<open>connectLive\<close> (lines 105 to 203). \<open>micGranted\<close> tells whether \<^verbatim>\<open>getUserMedia\<close>
  resolves. The result is \<open>False\<close> for \<^verbatim>\<open>null\<close> and \<open>True\<close> for the session object.
\<close>

definition connectLive :: "bool \<Rightarrow> service \<Rightarrow> bool \<times> service" where
  "connectLive micGranted s =
     (let s1 = ensureAudioContext s;
          s2 = s1\<lparr>inputCtx := Held\<rparr>
      in if \<not> micGranted then (False, emit (OnError ''MIC_ACCESS_DENIED'') s2)
         else (True, s2\<lparr>stream := Held, currentOutputTranscription := [],
                        currentInputTranscription := [], channel := Held\<rparr>))"

text \<open>
  The \<^verbatim>\<open>stop\<close> closure (lines 197 to 201). \<^verbatim>\<open>inputCtx.close()\<close> rejects when the
  context is not open any more; \<^verbatim>\<open>.catch(() => {})\<close> swallows the rejection.
\<close>

definition closeInputCtx :: "service \<Rightarrow> bool \<times> service" where
  "closeInputCtx s = (if inputCtx s = Held then (True, s\<lparr>inputCtx := Released\<rparr>) else (False, s))"

definition stop :: "service \<Rightarrow> service" where
  "stop s =
     (let s1 = s\<lparr>stream := Released\<rparr>;
          s2 = snd (closeInputCtx s1)
      in stopAudio s2)"

subsection \<open>Reading the trace\<close>

definition startedSources :: "event list \<Rightarrow> source list" where
  "startedSources tr = concat (map (\<lambda>e. case e of SourceStarted x \<Rightarrow> [x] | _ \<Rightarrow> []) tr)"

definition responseIds :: "event list \<Rightarrow> string list" where
  "responseIds tr = concat (map (\<lambda>e. case e of ToolResponseIssued i n r \<Rightarrow> [i] | _ \<Rightarrow> []) tr)"

definition turnCompletions :: "event list \<Rightarrow> (string \<times> string) list" where
  "turnCompletions tr = concat (map (\<lambda>e. case e of OnTurnComplete i out \<Rightarrow> [(i, out)] | _ \<Rightarrow> []) tr)"

definition transcriptions :: "event list \<Rightarrow> (string \<times> bool) list" where
  "transcriptions tr = concat (map (\<lambda>e. case e of OnTranscription t u \<Rightarrow> [(t, u)] | _ \<Rightarrow> []) tr)"

text \<open>The responses in a trace that carry the id \<open>i\<close>.\<close>

definition responsesFor :: "string \<Rightarrow> event list \<Rightarrow> event list" where
  "responsesFor i tr =
     concat (map (\<lambda>e. case e of ToolResponseIssued j n r \<Rightarrow> if j = i then [e] else []
                          | _ \<Rightarrow> []) tr)"

subsection \<open>Notions used by the statements\<close>

text \<open>The handler resolves for this call.\<close>

definition succeeds :: "(string \<Rightarrow> string \<Rightarrow> string + string) \<Rightarrow> function_call \<Rightarrow> bool" where
  "succeeds h fc = (case h (fc_name fc) (fc_args fc) of Inl e \<Rightarrow> False | Inr r \<Rightarrow> True)"

text \<open>The handler of the message gets past the tool-call loop to line 140: no awaited
  tool handler rejects.\<close>

definition reachesContent :: "(string \<Rightarrow> string \<Rightarrow> string + string) \<Rightarrow> message \<Rightarrow> bool" where
  "reachesContent h m = (case toolCall m of None \<Rightarrow> True | Some fcs \<Rightarrow> list_all (succeeds h) fcs)"

text \<open>The turn-complete signal of the message is observed: line 167 is reached and the
  flag is set.\<close>

definition completesTurn :: "(string \<Rightarrow> string \<Rightarrow> string + string) \<Rightarrow> message \<Rightarrow> bool" where
  "completesTurn h m = (turnComplete m \<and> reachesContent h m)"

text \<open>The two events of one function call: line 136 and line 137.\<close>

definition invocationOf :: "function_call \<Rightarrow> event" where
  "invocationOf fc = ToolCallInvoked (fc_name fc) (fc_args fc)"

definition responseTo :: "(string \<Rightarrow> string \<Rightarrow> string + string) \<Rightarrow> function_call \<Rightarrow> event" where
  "responseTo h fc =
     ToolResponseIssued (fc_id fc) (fc_name fc) (projr (h (fc_name fc) (fc_args fc)))"

text \<open>
  What the tool-call loop appends to the trace and what it leaves to be sent, as functions
  of the calls and of what was waiting to be sent: each call is invoked, then what waits is
  sent, and if the handler succeeds the response to the call waits in turn.
\<close>

fun loopTrace ::
  "(string \<Rightarrow> string \<Rightarrow> string + string) \<Rightarrow> function_call list \<Rightarrow> event list \<Rightarrow> event list" where
  "loopTrace h [] q = []"
| "loopTrace h (fc # fcs) q =
     invocationOf fc # q @ (if succeeds h fc then loopTrace h fcs [responseTo h fc] else [])"

fun pendingAfter ::
  "(string \<Rightarrow> string \<Rightarrow> string + string) \<Rightarrow> function_call list \<Rightarrow> event list \<Rightarrow> event list" where
  "pendingAfter h [] q = q"
| "pendingAfter h (fc # fcs) q =
     (if succeeds h fc then pendingAfter h fcs [responseTo h fc] else [])"

definition messageLoopTrace :: "(string \<Rightarrow> string \<Rightarrow> string + string) \<Rightarrow> message \<Rightarrow> event list" where
  "messageLoopTrace h m = (case toolCall m of None \<Rightarrow> [] | Some fcs \<Rightarrow> loopTrace h fcs [])"

definition messagePending :: "(string \<Rightarrow> string \<Rightarrow> string + string) \<Rightarrow> message \<Rightarrow> event list" where
  "messagePending h m = (case toolCall m of None \<Rightarrow> [] | Some fcs \<Rightarrow> pendingAfter h fcs [])"

text \<open>The calls of a message whose handler is invoked: those up to and including the
  first on which it fails.\<close>

definition invokedCalls ::
  "(string \<Rightarrow> string \<Rightarrow> string + string) \<Rightarrow> function_call list \<Rightarrow> function_call list" where
  "invokedCalls h fcs = takeWhile (succeeds h) fcs @ take 1 (dropWhile (succeeds h) fcs)"

text \<open>
  The fragment that the handling of a message appends to the output buffer (line 159) and
  to the input buffer (line 163; the branch is an \<^verbatim>\<open>else if\<close> of the output branch).
  Nothing is appended when the handler does not get to line 157.
\<close>

definition appendedOutput :: "(string \<Rightarrow> string \<Rightarrow> string + string) \<Rightarrow> message \<Rightarrow> string" where
  "appendedOutput h m =
     (if reachesContent h m
      then (case outputTranscription m of Some text \<Rightarrow> text | None \<Rightarrow> [])
      else [])"

definition appendedInput :: "(string \<Rightarrow> string \<Rightarrow> string + string) \<Rightarrow> message \<Rightarrow> string" where
  "appendedInput h m =
     (if reachesContent h m
      then (case outputTranscription m of
              Some text \<Rightarrow> []
            | None \<Rightarrow> (case inputTranscription m of Some text \<Rightarrow> text | None \<Rightarrow> []))
      else [])"









subsection \<open>Concrete sessions used to exercise the theorems\<close>

text \<open>A message that carries nothing, one that carries a single audio chunk, and one
  that carries the interrupted signal.\<close>

definition silent :: message where
  "silent = \<lparr>toolCall = None, parts = [], outputTranscription = None,
     inputTranscription = None, turnComplete = False, interrupted = False\<rparr>"

definition audioMessage :: "string \<Rightarrow> message" where
  "audioMessage b = silent\<lparr>parts := [\<lparr>inlineData = Some b\<rparr>]\<rparr>"

definition interruptMessage :: message where
  "interruptMessage = silent\<lparr>interrupted := True\<rparr>"

text \<open>The state right after a successful \<^verbatim>\<open>connectLive\<close> on a new service.\<close>

definition established :: service where
  "established = snd (connectLive True initial)"



definition threeChunks :: "string \<Rightarrow> rat" where
  "threeChunks b = (if b = ''first'' then 1 else if b = ''second'' then 1 / 2 else 2)"


text \<open>A tool handler that always succeeds, and one that fails on \<^verbatim>\<open>draw_detection\<close>.\<close>

definition noTools :: "string \<Rightarrow> string \<Rightarrow> string + string" where
  "noTools n a = Inr ''Tool executed.''"

definition failingTool :: "string \<Rightarrow> string \<Rightarrow> string + string" where
  "failingTool n a = (if n = ''draw_detection'' then Inl ''TypeError'' else Inr ''Tool executed.'')"

text \<open>A session in which a 2-second chunk was scheduled when the clock read 5, seen when
  the clock reads 6: the chunk is still playing.\<close>

definition bargeIn :: service where
  "bargeIn = advanceClock 6 (state_of (onmessage noTools threeChunks (audioMessage ''third'')
      (advanceClock 5 established)))"

text \<open>A message with a fragment for each direction.\<close>

definition bothFragments :: message where
  "bothFragments = silent\<lparr>outputTranscription := Some ''Hello'', inputTranscription := Some ''Hi''\<rparr>"

text \<open>A message with two function calls.\<close>

definition drawCall :: function_call where
  "drawCall = \<lparr>fc_id = ''a'', fc_name = ''draw_detection'', fc_args = ''{}''\<rparr>"

definition clearCall :: function_call where
  "clearCall = \<lparr>fc_id = ''b'', fc_name = ''clear_chat'', fc_args = ''{}''\<rparr>"

definition twoCalls :: message where
  "twoCalls = silent\<lparr>toolCall := Some [drawCall, clearCall]\<rparr>"

text \<open>The three messages of one turn: the user's words, then the model's words in two
  fragments, the second of them in the message that completes the turn.\<close>

definition heardUser :: message where
  "heardUser = silent\<lparr>inputTranscription := Some ''Hi''\<rparr>"

definition saidFirst :: message where
  "saidFirst = silent\<lparr>outputTranscription := Some ''Hel''\<rparr>"

definition saidLast :: message where
  "saidLast = silent\<lparr>outputTranscription := Some ''lo'', turnComplete := True\<rparr>"

section \<open>Properties\<close>

subsection \<open>Rounding\<close>

lemma pow2_less_iff [simp]: "(2 :: rat) powi m < 2 powi n \<longleftrightarrow> m < n"
proof
  assume "(2 :: rat) powi m < 2 powi n"
  show "m < n"
  proof (rule ccontr)
    assume "\<not> m < n"
    then have "(2 :: rat) powi n \<le> 2 powi m" by (intro power_int_increasing) simp_all
    with \<open>(2 :: rat) powi m < 2 powi n\<close> show False by simp
  qed
next
  assume "m < n"
  then show "(2 :: rat) powi m < 2 powi n" by (intro power_int_strict_increasing) simp_all
qed

lemma pow2_le_iff [simp]: "(2 :: rat) powi m \<le> 2 powi n \<longleftrightarrow> m \<le> n"
  using pow2_less_iff [of n m] by (simp add: not_less [symmetric] del: pow2_less_iff)

lemma pow2_pos [simp]: "(0 :: rat) < 2 powi n"
  by simp

lemma bitlen_pos: "0 < a \<Longrightarrow> 1 \<le> bitlen a"
  using bitlen_eq_zero_iff [of a] bitlen_nonneg [of a] by linarith

lemma bitlen_rat_bounds:
  assumes "0 < a"
  shows "2 powi (bitlen a - 1) \<le> (of_int a :: rat)" and "(of_int a :: rat) < 2 powi bitlen a"
proof -
  have pos: "1 \<le> bitlen a" using assms by (rule bitlen_pos)
  have "2 ^ nat (bitlen a - 1) \<le> a" and "a < 2 ^ nat (bitlen a)"
    using bitlen_bounds [OF assms] by simp_all
  then have "(of_int (2 ^ nat (bitlen a - 1)) :: rat) \<le> of_int a"
    and "(of_int a :: rat) < of_int (2 ^ nat (bitlen a))"
    by (simp_all only: of_int_le_iff of_int_less_iff)
  then show "2 powi (bitlen a - 1) \<le> (of_int a :: rat)"
    and "(of_int a :: rat) < 2 powi bitlen a"
    using pos by (simp_all add: power_int_nonneg_exp)
qed

lemma exponentOf_bounds:
  assumes "0 < x"
  shows "2 powi exponentOf x \<le> x" and "x < 2 powi (exponentOf x + 1)"
proof -
  obtain a b where q: "quotient_of x = (a, b)" by (cases "quotient_of x")
  have b: "0 < b" using quotient_of_denom_pos [OF q] .
  have x: "x = of_int a / of_int b" using quotient_of_div [OF q] .
  have a: "0 < a" using assms b x by (simp add: zero_less_divide_iff)
  let ?A = "bitlen a" and ?B = "bitlen b"
  note ba = bitlen_rat_bounds [OF a] and bb = bitlen_rat_bounds [OF b]
  have rb: "(0 :: rat) < of_int b" using b by simp
  have "x < 2 powi ?A / of_int b"
    unfolding x using ba(2) rb by (simp add: divide_strict_right_mono)
  also have "\<dots> \<le> 2 powi ?A / 2 powi (?B - 1)"
    using bb(1) rb by (intro divide_left_mono) (simp_all add: mult_pos_pos)
  also have "\<dots> = 2 powi (?A - ?B + 1)"
    by (simp add: power_int_diff [symmetric] algebra_simps)
  finally have upper: "x < 2 powi (?A - ?B + 1)" .
  have "2 powi (?A - ?B - 1) = (2 :: rat) powi (?A - 1) / 2 powi ?B"
    by (simp add: power_int_diff [symmetric] algebra_simps)
  also have "\<dots> < 2 powi (?A - 1) / of_int b"
    using bb(2) rb by (intro divide_strict_left_mono) simp_all
  also have "\<dots> \<le> x"
    unfolding x using ba(1) rb by (simp add: divide_right_mono)
  finally have lower: "2 powi (?A - ?B - 1) < x" .
  have e: "exponentOf x = (if 2 powi (?A - ?B) \<le> x then ?A - ?B else ?A - ?B - 1)"
    by (simp add: exponentOf_def q Let_def)
  show "2 powi exponentOf x \<le> x"
    using lower by (simp add: e)
  show "x < 2 powi (exponentOf x + 1)"
    using upper by (simp add: e not_le)
qed

lemma exponentOf_unique:
  assumes "0 < x" and "2 powi e \<le> x" and "x < 2 powi (e + 1)"
  shows "exponentOf x = e"
proof -
  note b = exponentOf_bounds [OF assms(1)]
  have "(2 :: rat) powi e < 2 powi (exponentOf x + 1)"
    using assms(2) b(2) by (rule order_le_less_trans)
  then have "e < exponentOf x + 1" by simp
  moreover have "(2 :: rat) powi exponentOf x < 2 powi (e + 1)"
    using b(1) assms(3) by (rule order_le_less_trans)
  then have "exponentOf x < e + 1" by simp
  ultimately show ?thesis by simp
qed


















lemma binary64_values:
  "binary64 0 = 0" "binary64 1 = 1" "binary64 2 = 2" "binary64 4 = 4" "binary64 7 = 7"
  "binary64 (1 / 2) = 1 / 2" "binary64 (3 / 2) = 3 / 2"
  by code_simp+

lemma binary32_values:
  "binary32 1 = 1"
  by code_simp

lemmas model_defs = silent_def audioMessage_def interruptMessage_def established_def
  threeChunks_def noTools_def failingTool_def bargeIn_def bothFragments_def drawCall_def
  clearCall_def twoCalls_def heardUser_def saidFirst_def saidLast_def
  connectLive_def initial_def ensureAudioContext_def onmessage_def
  schedulePart_def scheduleBuffer_def emit_def advanceClock_def accumulateTranscription_def
  completeTurn_def interruptedSignal_def startedSources_def stopAudio_def sourceEnded_def
  stop_def closeInputCtx_def responseIds_def turnCompletions_def transcriptions_def
  responsesFor_def succeeds_def reachesContent_def completesTurn_def invocationOf_def
  responseTo_def appendedOutput_def appendedInput_def audible_def runCallbacks_def
  addDouble_def divDouble_def binary64_values binary32_values

subsection \<open>Scheduling one chunk\<close>

lemma scheduleBuffer_simps:
  "nextStartTime (scheduleBuffer now d s) =
     addDouble (max (nextStartTime s) now) (divDouble d (speed s))"
  "activeSources (scheduleBuffer now d s) = activeSources s @
      [\<lparr>sid = sourceCount s, startAt = max (nextStartTime s) now, bufferDuration = d,
        playbackRate = binary32 (speed s)\<rparr>]"
  "trace (scheduleBuffer now d s) = trace s @
      [SourceStarted \<lparr>sid = sourceCount s, startAt = max (nextStartTime s) now,
         bufferDuration = d, playbackRate = binary32 (speed s)\<rparr>]"
  "speed (scheduleBuffer now d s) = speed s"
  "audioContext (scheduleBuffer now d s) = audioContext s"
  "outputNode (scheduleBuffer now d s) = outputNode s"
  "currentOutputTranscription (scheduleBuffer now d s) = currentOutputTranscription s"
  "currentInputTranscription (scheduleBuffer now d s) = currentInputTranscription s"
  by (simp_all add: scheduleBuffer_def emit_def Let_def)

text \<open>
  Claim C1. While a session is active (the output context and the gain node exist), a
  part that carries audio data is scheduled as follows, \<open>now\<close> being the reading of the
  output clock and \<open>speed s\<close> the rate multiplier at that moment: the source is started at
  \<open>max (nextStartTime s) now\<close>, the clock position becomes that start time plus the
  buffer's duration divided by the rate, with the \<^verbatim>\<open>+\<close> and \<^verbatim>\<open>/\<close> of the source,
  and the source joins the active set. When its \<^verbatim>\<open>ended\<close> listener runs,
  in whatever later state \<open>t\<close>, the source is not in the set afterwards.
\<close>

theorem schedule_chunk:
  assumes "audioContext s = Some now" and "outputNode s" and "speed s \<noteq> 0"
    and "inlineData p = Some b" and "b \<noteq> []"
  shows "(let start = max (nextStartTime s) now;
              src = \<lparr>sid = sourceCount s, startAt = start, bufferDuration = dec b,
                     playbackRate = binary32 (speed s)\<rparr>;
              s' = schedulePart dec p s
          in trace s' = trace s @ [SourceStarted src]
           \<and> nextStartTime s' = addDouble start (divDouble (dec b) (speed s))
           \<and> activeSources s' = activeSources s @ [src]
           \<and> src \<notin> set (activeSources (sourceEnded (sid src) t)))"
  using assms by (simp add: schedulePart_def scheduleBuffer_simps sourceEnded_def Let_def)

text \<open>Claim C1 at the first chunk of a new session: it starts at 0, the clock moves to 1,
  and the active set holds the source until it ends.\<close>

theorem schedule_chunk_witness:
  "audioContext established = Some 0 \<and> outputNode established \<and> speed established \<noteq> 0
   \<and> nextStartTime (schedulePart threeChunks \<lparr>inlineData = Some ''first''\<rparr> established) = 1
   \<and> activeSources (schedulePart threeChunks \<lparr>inlineData = Some ''first''\<rparr> established)
       = [\<lparr>sid = 0, startAt = 0, bufferDuration = 1, playbackRate = 1\<rparr>]
   \<and> activeSources (sourceEnded 0
        (schedulePart threeChunks \<lparr>inlineData = Some ''first''\<rparr> established)) = []"
  using schedule_chunk [of established 0 "\<lparr>inlineData = Some ''first''\<rparr>" "''first''"
      threeChunks established]
  by (simp add: model_defs Let_def)

text \<open>The listener removes that source and no other: as long as the identities in the
  active set come from the counter, ending the source just scheduled gives back the set
  as it was before.\<close>

lemma ended_removes_only_that_source:
  assumes "\<forall>x \<in> set (activeSources s). sid x < sourceCount s"
  shows "activeSources (sourceEnded (sourceCount s) (scheduleBuffer now d s)) = activeSources s"
proof -
  have "filter (\<lambda>x. sid x \<noteq> sourceCount s) (activeSources s) = activeSources s"
    using assms by (intro filter_True) auto
  then show ?thesis
    by (simp add: sourceEnded_def scheduleBuffer_simps)
qed

subsection \<open>The three-chunk scenario\<close>

text \<open>
  Claim C6, as amended. Three chunks of 1, 0.5 and 2 seconds at rate 1 that arrive when
  the output clock reads 0, 0.3 and 2 are started at 0, 1 and 2: when the third arrives
  the clock position is 1.5, which is earlier than the clock reading 2.
\<close>

theorem three_chunks_start_times:
  "map startAt (startedSources (trace (arrivals noTools threeChunks
     [(0, audioMessage ''first''), (3 / 10, audioMessage ''second''),
      (2, audioMessage ''third'')]
     established))) = [0, 1, 2]"
  by (simp add: model_defs Let_def)

text \<open>Claim C6, as stated, fails: the start times are not 0, 1 and 1.5.\<close>

theorem three_chunks_not_as_specified:
  "map startAt (startedSources (trace (arrivals noTools threeChunks
     [(0, audioMessage ''first''), (3 / 10, audioMessage ''second''),
      (2, audioMessage ''third'')]
     established))) \<noteq> [0, 1, 3 / 2]"
  by (simp add: model_defs Let_def)

subsection \<open>The shape of one handler run\<close>

lemma dispatch_result:
  "state_of (fst (dispatchToolCalls h fcs q s)) = s\<lparr>trace := trace s @ loopTrace h fcs q\<rparr>
   \<and> snd (dispatchToolCalls h fcs q s) = pendingAfter h fcs q
   \<and> completed (fst (dispatchToolCalls h fcs q s)) = list_all (succeeds h) fcs"
proof (induction fcs arbitrary: q s)
  case Nil
  show ?case by simp
next
  case (Cons fc fcs)
  show ?case
  proof (cases "h (fc_name fc) (fc_args fc)")
    case (Inl e)
    then show ?thesis
      by (simp add: succeeds_def emit_def runCallbacks_def invocationOf_def)
  next
    case (Inr r)
    then show ?thesis
      using Cons.IH [of "[ToolResponseIssued (fc_id fc) (fc_name fc) r]"
          "runCallbacks q (emit (ToolCallInvoked (fc_name fc) (fc_args fc)) s)"]
      by (simp add: succeeds_def emit_def runCallbacks_def invocationOf_def responseTo_def)
  qed
qed

lemma pendingAfter_closed:
  "pendingAfter h fcs q =
     (if list_all (succeeds h) fcs
      then (if fcs = [] then q else [responseTo h (last fcs)])
      else [])"
  by (induction fcs arbitrary: q) auto

lemma invokedCalls_Cons:
  "invokedCalls h (fc # fcs) = (if succeeds h fc then fc # invokedCalls h fcs else [fc])"
  by (simp add: invokedCalls_def)

lemma loopTrace_closed:
  "loopTrace h fcs q =
     (case invokedCalls h fcs of
        [] \<Rightarrow> []
      | c # cs \<Rightarrow> invocationOf c # q @
          concat (map (\<lambda>(a, b). [invocationOf b, responseTo h a]) (zip (c # cs) cs)))"
proof (induction fcs arbitrary: q)
  case Nil
  show ?case by (simp add: invokedCalls_def)
next
  case (Cons fc fcs)
  show ?case
  proof (cases "succeeds h fc")
    case False
    then show ?thesis by (simp add: invokedCalls_Cons)
  next
    case True
    show ?thesis
    proof (cases "invokedCalls h fcs")
      case Nil
      then show ?thesis using True Cons.IH [of "[responseTo h fc]"]
        by (simp add: invokedCalls_Cons)
    next
      case (Cons c cs)
      then show ?thesis using True Cons.IH [of "[responseTo h fc]"]
        by (simp add: invokedCalls_Cons)
    qed
  qed
qed

lemma messagePending_unreached: "\<not> reachesContent h m \<Longrightarrow> messagePending h m = []"
  by (auto simp: reachesContent_def messagePending_def pendingAfter_closed split: option.splits)

text \<open>The state after the handler of one message: the tool-call loop only extends the
  trace, and the rest of the body runs exactly when no tool handler failed.\<close>

lemma onmessage_state:
  "state_of (onmessage h dec m s) =
     (if reachesContent h m
      then runCallbacks
             (fst (scheduleParts dec (parts m) (messagePending h m)
                (s\<lparr>trace := trace s @ messageLoopTrace h m\<rparr>)))
             (interruptedSignal m (completeTurn m (accumulateTranscription m
                (snd (scheduleParts dec (parts m) (messagePending h m)
                   (s\<lparr>trace := trace s @ messageLoopTrace h m\<rparr>))))))
      else s\<lparr>trace := trace s @ messageLoopTrace h m\<rparr>)"
proof (cases "toolCall m")
  case None
  then show ?thesis
    by (simp add: onmessage_def reachesContent_def messageLoopTrace_def messagePending_def
        split: prod.splits)
next
  case (Some fcs)
  note r = dispatch_result [of h fcs "[]" s]
  obtain out q where d: "dispatchToolCalls h fcs [] s = (out, q)"
    by (cases "dispatchToolCalls h fcs [] s")
  have q: "q = messagePending h m" using r d Some by (simp add: messagePending_def)
  show ?thesis
  proof (cases out)
    case (Completed s1)
    then have "s1 = s\<lparr>trace := trace s @ messageLoopTrace h m\<rparr>"
      and "reachesContent h m"
      using r d Some by (simp_all add: messageLoopTrace_def reachesContent_def)
    then show ?thesis
      using Some d Completed q by (simp add: onmessage_def split: prod.splits)
  next
    case (Rejected e s1)
    then have "s1 = s\<lparr>trace := trace s @ messageLoopTrace h m\<rparr>"
      and "\<not> reachesContent h m"
      using r d Some by (simp_all add: messageLoopTrace_def reachesContent_def)
    then show ?thesis
      using Some d Rejected by (simp add: onmessage_def)
  qed
qed

lemma onmessage_completed:
  "completed (onmessage h dec m s) = reachesContent h m"
proof (cases "toolCall m")
  case None
  then show ?thesis by (simp add: onmessage_def reachesContent_def split: prod.splits)
next
  case (Some fcs)
  obtain out q where d: "dispatchToolCalls h fcs [] s = (out, q)"
    by (cases "dispatchToolCalls h fcs [] s")
  then show ?thesis
    using dispatch_result [of h fcs "[]" s] Some
    by (cases out) (simp_all add: onmessage_def reachesContent_def split: prod.splits)
qed

lemma runCallbacks_simps:
  "trace (runCallbacks q s) = trace s @ q"
  "activeSources (runCallbacks q s) = activeSources s"
  "nextStartTime (runCallbacks q s) = nextStartTime s"
  "speed (runCallbacks q s) = speed s"
  "audioContext (runCallbacks q s) = audioContext s"
  "outputNode (runCallbacks q s) = outputNode s"
  "currentOutputTranscription (runCallbacks q s) = currentOutputTranscription s"
  "currentInputTranscription (runCallbacks q s) = currentInputTranscription s"
  by (simp_all add: runCallbacks_def)

lemma audible_runCallbacks [simp]: "audible p (runCallbacks q s) = audible p s"
  by (simp add: audible_def runCallbacks_def split: option.splits)

lemma schedulePart_inaudible: "\<not> audible p s \<Longrightarrow> schedulePart dec p s = s"
  by (auto simp: audible_def schedulePart_def split: option.splits)

lemma schedulePart_fields:
  "currentOutputTranscription (schedulePart dec p s) = currentOutputTranscription s
   \<and> currentInputTranscription (schedulePart dec p s) = currentInputTranscription s
   \<and> speed (schedulePart dec p s) = speed s
   \<and> audioContext (schedulePart dec p s) = audioContext s
   \<and> outputNode (schedulePart dec p s) = outputNode s"
  by (auto simp: schedulePart_def scheduleBuffer_simps split: option.splits)

lemma scheduleParts_fields:
  "currentOutputTranscription (snd (scheduleParts dec ps q s)) = currentOutputTranscription s
   \<and> currentInputTranscription (snd (scheduleParts dec ps q s)) = currentInputTranscription s
   \<and> speed (snd (scheduleParts dec ps q s)) = speed s
   \<and> audioContext (snd (scheduleParts dec ps q s)) = audioContext s
   \<and> outputNode (snd (scheduleParts dec ps q s)) = outputNode s"
proof (induction ps arbitrary: q s)
  case Nil
  show ?case by simp
next
  case (Cons p ps)
  show ?case
    using Cons.IH [of "[]" "schedulePart dec p (runCallbacks q s)"] Cons.IH [of q s]
      schedulePart_fields [of dec p "runCallbacks q s"]
    by (simp add: runCallbacks_simps)
qed

lemma schedulePart_trace:
  "\<exists>xs. trace (schedulePart dec p s) = trace s @ map SourceStarted xs
      \<and> activeSources (schedulePart dec p s) = activeSources s @ xs"
proof (cases "\<exists>b now. inlineData p = Some b \<and> audioContext s = Some now \<and> b \<noteq> [] \<and> outputNode s")
  case True
  then obtain b now where "inlineData p = Some b" "audioContext s = Some now" "b \<noteq> []"
      "outputNode s"
    by blast
  then have "trace (schedulePart dec p s) = trace s @ map SourceStarted
        [\<lparr>sid = sourceCount s, startAt = max (nextStartTime s) now, bufferDuration = dec b,
          playbackRate = binary32 (speed s)\<rparr>]"
    and "activeSources (schedulePart dec p s) = activeSources s @
        [\<lparr>sid = sourceCount s, startAt = max (nextStartTime s) now, bufferDuration = dec b,
          playbackRate = binary32 (speed s)\<rparr>]"
    by (simp_all add: schedulePart_def scheduleBuffer_simps)
  then show ?thesis by blast
next
  case False
  then have "schedulePart dec p s = s"
    by (auto simp: schedulePart_def split: option.splits)
  then have "trace (schedulePart dec p s) = trace s @ map SourceStarted []"
    and "activeSources (schedulePart dec p s) = activeSources s @ []"
    by simp_all
  then show ?thesis by blast
qed

text \<open>The parts loop adds the sources it starts to the trace and to the active set; what
  was waiting to be sent is sent before the first of them, or is still waiting.\<close>

lemma scheduleParts_shape:
  "\<exists>xs. activeSources (snd (scheduleParts dec ps q s)) = activeSources s @ xs
      \<and> trace (snd (scheduleParts dec ps q s)) @ fst (scheduleParts dec ps q s)
          = trace s @ q @ map SourceStarted xs"
proof (induction ps arbitrary: q s)
  case Nil
  have "activeSources (snd (scheduleParts dec [] q s)) = activeSources s @ []"
    and "trace (snd (scheduleParts dec [] q s)) @ fst (scheduleParts dec [] q s)
          = trace s @ q @ map SourceStarted []" by simp_all
  then show ?case by blast
next
  case (Cons p ps)
  show ?case
  proof (cases "audible p s")
    case False
    then show ?thesis using Cons.IH [of q s] by simp
  next
    case True
    let ?s' = "schedulePart dec p (runCallbacks q s)"
    obtain ys where ys: "trace ?s' = trace (runCallbacks q s) @ map SourceStarted ys"
        "activeSources ?s' = activeSources (runCallbacks q s) @ ys"
      using schedulePart_trace by blast
    obtain zs where zs: "activeSources (snd (scheduleParts dec ps [] ?s')) = activeSources ?s' @ zs"
        "trace (snd (scheduleParts dec ps [] ?s')) @ fst (scheduleParts dec ps [] ?s')
           = trace ?s' @ [] @ map SourceStarted zs"
      using Cons.IH [of "[]" ?s'] by blast
    have "activeSources (snd (scheduleParts dec (p # ps) q s)) = activeSources s @ (ys @ zs)"
      and "trace (snd (scheduleParts dec (p # ps) q s)) @ fst (scheduleParts dec (p # ps) q s)
          = trace s @ q @ map SourceStarted (ys @ zs)"
      using True ys zs by (simp_all add: runCallbacks_simps)
    then show ?thesis by blast
  qed
qed

lemma scheduleParts_pending:
  "fst (scheduleParts dec ps q s) = q \<or> fst (scheduleParts dec ps q s) = []"
proof (induction ps arbitrary: q s)
  case Nil
  show ?case by simp
next
  case (Cons p ps)
  show ?case
    using Cons.IH [of q s] Cons.IH [of "[]" "schedulePart dec p (runCallbacks q s)"]
    by auto
qed

text \<open>Which kinds of event each step can add, stated for any reading \<open>g\<close> of the trace
  that ignores those kinds.\<close>

lemma loopTrace_kinds:
  "e \<in> set (loopTrace h fcs q) \<Longrightarrow>
     e \<in> set q \<or> (\<exists>n a. e = ToolCallInvoked n a) \<or> (\<exists>i n r. e = ToolResponseIssued i n r)"
proof (induction fcs arbitrary: q)
  case Nil
  then show ?case by simp
next
  case (Cons fc fcs)
  then show ?case
    using Cons.IH [of "[responseTo h fc]"]
    by (auto simp: invocationOf_def responseTo_def split: if_splits)
qed

lemma pendingAfter_kinds:
  "e \<in> set (pendingAfter h fcs q) \<Longrightarrow> e \<in> set q \<or> (\<exists>i n r. e = ToolResponseIssued i n r)"
  by (auto simp: pendingAfter_closed responseTo_def split: if_splits)

lemma project_tools:
  assumes "\<And>n a. g (ToolCallInvoked n a) = []" and "\<And>i n r. g (ToolResponseIssued i n r) = []"
  shows "concat (map g (messageLoopTrace h m)) = []"
    and "concat (map g (messagePending h m)) = []"
proof -
  have "g e = []" if "e \<in> set (messageLoopTrace h m)" for e
  proof (cases "toolCall m")
    case None
    then show ?thesis using that by (simp add: messageLoopTrace_def)
  next
    case (Some fcs)
    then have "e \<in> set (loopTrace h fcs [])" using that by (simp add: messageLoopTrace_def)
    then show ?thesis using loopTrace_kinds [of e h fcs "[]"] assms by auto
  qed
  then show "concat (map g (messageLoopTrace h m)) = []" by simp
  have "g e = []" if "e \<in> set (messagePending h m)" for e
  proof (cases "toolCall m")
    case None
    then show ?thesis using that by (simp add: messagePending_def)
  next
    case (Some fcs)
    then have "e \<in> set (pendingAfter h fcs [])" using that by (simp add: messagePending_def)
    then show ?thesis using pendingAfter_kinds [of e h fcs "[]"] assms by auto
  qed
  then show "concat (map g (messagePending h m)) = []" by simp
qed

lemma project_scheduleParts:
  assumes "\<And>x. g (SourceStarted x) = []"
  shows "concat (map g (trace (snd (scheduleParts dec ps q s))))
           @ concat (map g (fst (scheduleParts dec ps q s)))
         = concat (map g (trace s)) @ concat (map g q)"
proof -
  obtain xs where "trace (snd (scheduleParts dec ps q s)) @ fst (scheduleParts dec ps q s)
          = trace s @ q @ map SourceStarted xs"
    using scheduleParts_shape by blast
  then have "concat (map g (trace (snd (scheduleParts dec ps q s))
               @ fst (scheduleParts dec ps q s)))
         = concat (map g (trace s @ q @ map SourceStarted xs))"
    by simp
  then show ?thesis using assms by (simp add: comp_def)
qed

lemma project_scheduleParts_quiet:
  assumes "\<And>x. g (SourceStarted x) = []" and "concat (map g q) = []"
  shows "concat (map g (trace (snd (scheduleParts dec ps q s)))) = concat (map g (trace s))"
    and "concat (map g (fst (scheduleParts dec ps q s))) = []"
proof -
  show p: "concat (map g (fst (scheduleParts dec ps q s))) = []"
    using scheduleParts_pending [of dec ps q s] assms(2) by auto
  show "concat (map g (trace (snd (scheduleParts dec ps q s)))) = concat (map g (trace s))"
    using project_scheduleParts [of g dec ps q s, OF assms(1)] p assms(2) by simp
qed

lemma project_accumulate:
  assumes "\<And>t u. g (OnTranscription t u) = []"
  shows "concat (map g (trace (accumulateTranscription m s))) = concat (map g (trace s))"
  using assms by (simp add: accumulateTranscription_def emit_def Let_def split: option.splits)

lemma project_completeTurn:
  assumes "\<And>a b. g (OnTurnComplete a b) = []"
  shows "concat (map g (trace (completeTurn m s))) = concat (map g (trace s))"
  using assms by (simp add: completeTurn_def emit_def)

lemma project_interrupted:
  assumes "\<And>k. g (SourceStopped k) = []"
  shows "concat (map g (trace (interruptedSignal m s))) = concat (map g (trace s))"
  using assms by (simp add: interruptedSignal_def stopAudio_def comp_def)

lemma advanceClock_simps:
  "currentOutputTranscription (advanceClock t s) = currentOutputTranscription s"
  "currentInputTranscription (advanceClock t s) = currentInputTranscription s"
  "trace (advanceClock t s) = trace s"
  "speed (advanceClock t s) = speed s"
  "nextStartTime (advanceClock t s) = nextStartTime s"
  "outputNode (advanceClock t s) = outputNode s"
  "audioContext (advanceClock t s) = map_option (\<lambda>_. t) (audioContext s)"
  by (simp_all add: advanceClock_def)

lemma arrivals_append:
  "arrivals h dec (xs @ ys) s = arrivals h dec ys (arrivals h dec xs s)"
  by (induction xs arbitrary: s) auto

text \<open>A reading of the trace that ignores everything but the tool calls sees, after the
  handler of a message, what the loop added and then what it left to be sent.\<close>

lemma project_onmessage_tools:
  assumes "\<And>x. g (SourceStarted x) = []" and "\<And>k. g (SourceStopped k) = []"
    and "\<And>t u. g (OnTranscription t u) = []" and "\<And>a b. g (OnTurnComplete a b) = []"
  shows "concat (map g (trace (state_of (onmessage h dec m s)))) =
           concat (map g (trace s)) @ concat (map g (messageLoopTrace h m))
             @ concat (map g (messagePending h m))"
proof (cases "reachesContent h m")
  case False
  then show ?thesis by (simp add: onmessage_state messagePending_unreached)
next
  case True
  let ?s1 = "s\<lparr>trace := trace s @ messageLoopTrace h m\<rparr>"
  let ?R = "scheduleParts dec (parts m) (messagePending h m) ?s1"
  have "concat (map g (trace (state_of (onmessage h dec m s)))) =
      concat (map g (trace (interruptedSignal m (completeTurn m
        (accumulateTranscription m (snd ?R)))))) @ concat (map g (fst ?R))"
    using True by (simp add: onmessage_state runCallbacks_simps)
  also have "\<dots> = concat (map g (trace (snd ?R))) @ concat (map g (fst ?R))"
    using assms(2-4)
    by (simp add: project_interrupted project_completeTurn project_accumulate)
  also have "\<dots> = concat (map g (trace ?s1)) @ concat (map g (messagePending h m))"
    using assms(1) by (rule project_scheduleParts)
  finally show ?thesis by simp
qed

lemma project_responses:
  assumes "\<And>n a. g (ToolCallInvoked n a) = []"
  shows "concat (map g (loopTrace h fcs q @ pendingAfter h fcs q)) =
           concat (map g q) @ concat (map g (map (responseTo h) (takeWhile (succeeds h) fcs)))"
proof (induction fcs arbitrary: q)
  case Nil
  show ?case by simp
next
  case (Cons fc fcs)
  show ?case
    using Cons.IH [of "[responseTo h fc]"] assms
    by (simp add: invocationOf_def)
qed

subsection \<open>The tool-call dispatcher\<close>

lemma responseIds_responses: "responseIds (map (responseTo h) xs) = map fc_id xs"
  by (induction xs) (simp_all add: responseIds_def responseTo_def)

text \<open>
  Claim C9, as amended. The loop over the function calls of one message invokes the
  handlers in message order, each after the one before it has completed, up to and
  including the first that fails. The response to a call is not sent before the handler of
  the next call is invoked: the trace of the loop is the first invocation and then, for
  every further invocation, that invocation followed by the response to the call before
  it. The response to the last call is still to be sent when the loop is left. When the
  handler of the message is over, the responses sent are those of the calls before the
  first failure, in request order.
\<close>

theorem tool_calls_in_order:
  assumes "toolCall m = Some fcs"
  shows "trace (state_of (fst (dispatchToolCalls h fcs [] s))) = trace s @
           (case invokedCalls h fcs of
              [] \<Rightarrow> []
            | c # cs \<Rightarrow> invocationOf c #
                concat (map (\<lambda>(a, b). [invocationOf b, responseTo h a]) (zip (c # cs) cs)))
       \<and> snd (dispatchToolCalls h fcs [] s) =
           (if list_all (succeeds h) fcs \<and> fcs \<noteq> [] then [responseTo h (last fcs)] else [])
       \<and> responseIds (trace (state_of (onmessage h dec m s))) =
           responseIds (trace s) @ map fc_id (takeWhile (succeeds h) fcs)"
proof -
  have "trace (state_of (fst (dispatchToolCalls h fcs [] s))) = trace s @ loopTrace h fcs []"
    using dispatch_result [of h fcs "[]" s] by simp
  then have first: "trace (state_of (fst (dispatchToolCalls h fcs [] s))) = trace s @
           (case invokedCalls h fcs of
              [] \<Rightarrow> []
            | c # cs \<Rightarrow> invocationOf c #
                concat (map (\<lambda>(a, b). [invocationOf b, responseTo h a]) (zip (c # cs) cs)))"
    by (simp add: loopTrace_closed split: list.splits)
  have second: "snd (dispatchToolCalls h fcs [] s) =
           (if list_all (succeeds h) fcs \<and> fcs \<noteq> [] then [responseTo h (last fcs)] else [])"
    using dispatch_result [of h fcs "[]" s] by (simp add: pendingAfter_closed)
  have "responseIds (trace (state_of (onmessage h dec m s))) =
      responseIds (trace s) @ responseIds (messageLoopTrace h m) @ responseIds (messagePending h m)"
    unfolding responseIds_def by (rule project_onmessage_tools) simp_all
  also have "responseIds (messageLoopTrace h m) @ responseIds (messagePending h m) =
      responseIds (loopTrace h fcs [] @ pendingAfter h fcs [])"
    using assms by (simp add: messageLoopTrace_def messagePending_def responseIds_def)
  also have "\<dots> = responseIds [] @ responseIds (map (responseTo h) (takeWhile (succeeds h) fcs))"
    unfolding responseIds_def by (rule project_responses) simp
  finally have third: "responseIds (trace (state_of (onmessage h dec m s))) =
           responseIds (trace s) @ map fc_id (takeWhile (succeeds h) fcs)"
    by (simp add: responseIds_responses) (simp add: responseIds_def)
  show ?thesis using first second third by simp
qed

text \<open>Claim C9, as amended, on a message with two calls whose handlers succeed: both
  responses have been sent when the handler is over, the one for \<open>a\<close> first.\<close>

theorem tool_calls_in_order_witness:
  "toolCall twoCalls = Some [drawCall, clearCall]
   \<and> trace (state_of (fst (dispatchToolCalls noTools [drawCall, clearCall] [] established))) =
       [ToolCallInvoked ''draw_detection'' ''{}'', ToolCallInvoked ''clear_chat'' ''{}'',
        ToolResponseIssued ''a'' ''draw_detection'' ''Tool executed.'']
   \<and> snd (dispatchToolCalls noTools [drawCall, clearCall] [] established) =
       [ToolResponseIssued ''b'' ''clear_chat'' ''Tool executed.'']
   \<and> responseIds (trace (state_of (onmessage noTools threeChunks twoCalls established)))
       = [''a'', ''b'']"
  using tool_calls_in_order [of twoCalls "[drawCall, clearCall]" noTools established threeChunks]
  by (simp add: model_defs invokedCalls_def)

text \<open>
  Claim C9, as stated, fails: with two calls whose handlers succeed, the handler of the
  second call is invoked before the response to the first one is sent.
\<close>

theorem next_handler_before_response:
  "trace (state_of (onmessage noTools threeChunks twoCalls established)) =
     [ToolCallInvoked ''draw_detection'' ''{}'', ToolCallInvoked ''clear_chat'' ''{}'',
      ToolResponseIssued ''a'' ''draw_detection'' ''Tool executed.'',
      ToolResponseIssued ''b'' ''clear_chat'' ''Tool executed.'']"
  by (simp add: model_defs Let_def)

lemma responsesFor_append [simp]:
  "responsesFor i (xs @ ys) = responsesFor i xs @ responsesFor i ys"
  by (simp add: responsesFor_def)

lemma responsesFor_other:
  "i \<notin> fc_id ` set fcs \<Longrightarrow> responsesFor i (map (responseTo h) fcs) = []"
  by (induction fcs) (auto simp: responsesFor_def responseTo_def)

lemma responsesFor_answered:
  "distinct (map fc_id fcs) \<Longrightarrow> fc \<in> set fcs \<Longrightarrow>
     responsesFor (fc_id fc) (map (responseTo h) (takeWhile (succeeds h) fcs)) =
       (if fc \<in> set (takeWhile (succeeds h) fcs) then [responseTo h fc] else [])"
proof (induction fcs)
  case Nil
  then show ?case by simp
next
  case (Cons g fcs)
  have head: "responsesFor (fc_id fc) [responseTo h g] =
      (if fc_id g = fc_id fc then [responseTo h g] else [])"
    by (simp add: responsesFor_def responseTo_def)
  show ?case
  proof (cases "fc = g")
    case True
    have "fc_id g \<notin> fc_id ` set (takeWhile (succeeds h) fcs)"
      using Cons.prems(1) by (auto dest: set_takeWhileD)
    then have "responsesFor (fc_id g) (map (responseTo h) (takeWhile (succeeds h) fcs)) = []"
      by (rule responsesFor_other)
    then show ?thesis
      using True head by (cases "succeeds h g") (simp_all add: responsesFor_def)
  next
    case False
    then have mem: "fc \<in> set fcs" using Cons.prems by simp
    then have neq: "fc_id g \<noteq> fc_id fc" using Cons.prems by auto
    have IH: "responsesFor (fc_id fc) (map (responseTo h) (takeWhile (succeeds h) fcs)) =
       (if fc \<in> set (takeWhile (succeeds h) fcs) then [responseTo h fc] else [])"
      using Cons.IH Cons.prems mem by simp
    show ?thesis
    proof (cases "succeeds h g")
      case True
      have "responsesFor (fc_id fc) (map (responseTo h) (takeWhile (succeeds h) (g # fcs))) =
          responsesFor (fc_id fc) [responseTo h g]
            @ responsesFor (fc_id fc) (map (responseTo h) (takeWhile (succeeds h) fcs))"
        using True by (simp add: responsesFor_def)
      then show ?thesis using True False neq IH head by simp
    next
      case False
      then show ?thesis by (simp add: responsesFor_def)
    qed
  qed
qed

text \<open>
  Claim C4, as amended. Let a message carry function calls with distinct ids. For a call
  such that the handler succeeds on it and on every call before it in the message, the
  handling of the message issues exactly one response with the call's id, and that
  response carries the handler's result. For the first call on which the handler fails,
  and for every call after it, no response is issued.
\<close>

theorem tool_call_answered_once:
  assumes "toolCall m = Some fcs" and "distinct (map fc_id fcs)" and "fc \<in> set fcs"
  shows "responsesFor (fc_id fc) (trace (state_of (onmessage h dec m s))) =
           responsesFor (fc_id fc) (trace s) @
             (if fc \<in> set (takeWhile (succeeds h) fcs) then [responseTo h fc] else [])"
proof -
  have "responsesFor (fc_id fc) (trace (state_of (onmessage h dec m s))) =
      responsesFor (fc_id fc) (trace s) @ responsesFor (fc_id fc) (messageLoopTrace h m)
        @ responsesFor (fc_id fc) (messagePending h m)"
    unfolding responsesFor_def by (rule project_onmessage_tools) simp_all
  also have "responsesFor (fc_id fc) (messageLoopTrace h m)
        @ responsesFor (fc_id fc) (messagePending h m) =
      responsesFor (fc_id fc) (loopTrace h fcs [] @ pendingAfter h fcs [])"
    using assms(1) by (simp add: messageLoopTrace_def messagePending_def)
  also have "\<dots> = responsesFor (fc_id fc) []
      @ responsesFor (fc_id fc) (map (responseTo h) (takeWhile (succeeds h) fcs))"
    unfolding responsesFor_def by (rule project_responses) simp
  finally show ?thesis
    using responsesFor_answered [OF assms(2,3), of h] by (simp add: responsesFor_def)
qed

text \<open>Claim C4, as amended, on the second of two calls whose handlers succeed.\<close>

theorem tool_call_answered_once_witness:
  "toolCall twoCalls = Some [drawCall, clearCall]
   \<and> distinct (map fc_id [drawCall, clearCall]) \<and> clearCall \<in> set [drawCall, clearCall]
   \<and> responsesFor ''b'' (trace (state_of (onmessage noTools threeChunks twoCalls established)))
       = [ToolResponseIssued ''b'' ''clear_chat'' ''Tool executed.'']"
  using tool_call_answered_once [of twoCalls "[drawCall, clearCall]" clearCall
      noTools threeChunks established]
  by (simp add: model_defs)

text \<open>
  Claim C4, as stated, fails. When the handler fails on the first of two calls, the
  message handler is left with a rejection and no response at all has been issued:
  neither one with an error payload for the failed call, nor one for the call after it.
\<close>

theorem failed_handler_sends_nothing:
  "responseIds (trace (state_of (onmessage failingTool threeChunks twoCalls established))) = []
   \<and> \<not> completed (onmessage failingTool threeChunks twoCalls established)"
  by (simp add: model_defs Let_def)

subsection \<open>Interrupting playback\<close>

lemma stopAudio_simps:
  "activeSources (stopAudio s) = []"
  "nextStartTime (stopAudio s) = 0"
  "trace (stopAudio s) = trace s @ map (\<lambda>x. SourceStopped (sid x)) (activeSources s)"
  "stream (stopAudio s) = stream s"
  "inputCtx (stopAudio s) = inputCtx s"
  "channel (stopAudio s) = channel s"
  "currentOutputTranscription (stopAudio s) = currentOutputTranscription s"
  "currentInputTranscription (stopAudio s) = currentInputTranscription s"
  by (simp_all add: stopAudio_def)

lemma stopAudio_idem: "stopAudio (stopAudio s) = stopAudio s"
  by (simp add: stopAudio_def)

lemma transcript_steps_keep_sources:
  "activeSources (completeTurn m (accumulateTranscription m s)) = activeSources s"
  by (simp add: completeTurn_def accumulateTranscription_def emit_def Let_def split: option.splits)

text \<open>After an interrupt the next chunk starts at the clock reading of its own
  scheduling, since that reading is not negative.\<close>

lemma schedule_after_interrupt:
  "0 \<le> now \<Longrightarrow> trace (scheduleBuffer now d (stopAudio s)) = trace (stopAudio s) @
     [SourceStarted \<lparr>sid = sourceCount s, startAt = now, bufferDuration = d,
        playbackRate = binary32 (speed s)\<rparr>]"
  by (simp add: scheduleBuffer_simps stopAudio_def)

text \<open>
  Claim C3, as amended. In every state, also one with no active source, \<^verbatim>\<open>stopAudio\<close>
  stops every source of the active set, leaves the set empty and sets the clock position
  to 0; calling it twice is the same as calling it once. A message with the interrupted
  signal whose handler gets past the tool calls ends the same way: the set is empty, the
  clock position is 0, and every source that was active when the message arrived has been
  stopped.
\<close>

theorem interrupt_clears:
  "activeSources (stopAudio s) = [] \<and> nextStartTime (stopAudio s) = 0
   \<and> trace (stopAudio s) = trace s @ map (\<lambda>x. SourceStopped (sid x)) (activeSources s)
   \<and> stopAudio (stopAudio s) = stopAudio s
   \<and> (interrupted m \<and> reachesContent h m \<longrightarrow>
        activeSources (state_of (onmessage h dec m s)) = []
      \<and> nextStartTime (state_of (onmessage h dec m s)) = 0
      \<and> (\<forall>x \<in> set (activeSources s).
            SourceStopped (sid x) \<in> set (trace (state_of (onmessage h dec m s)))))"
proof -
  have "activeSources (state_of (onmessage h dec m s)) = []
      \<and> nextStartTime (state_of (onmessage h dec m s)) = 0
      \<and> (\<forall>x \<in> set (activeSources s).
            SourceStopped (sid x) \<in> set (trace (state_of (onmessage h dec m s))))"
    if int: "interrupted m" and reach: "reachesContent h m"
  proof -
    let ?s1 = "s\<lparr>trace := trace s @ messageLoopTrace h m\<rparr>"
    let ?R = "scheduleParts dec (parts m) (messagePending h m) ?s1"
    let ?s3 = "completeTurn m (accumulateTranscription m (snd ?R))"
    obtain xs where "activeSources (snd ?R) = activeSources ?s1 @ xs"
      using scheduleParts_shape by blast
    then have sub: "set (activeSources s) \<subseteq> set (activeSources ?s3)"
      by (simp add: transcript_steps_keep_sources)
    have fin: "state_of (onmessage h dec m s) = runCallbacks (fst ?R) (stopAudio ?s3)"
      using int reach by (simp add: onmessage_state interruptedSignal_def)
    show ?thesis
      unfolding fin using sub by (auto simp: stopAudio_simps runCallbacks_simps)
  qed
  then show ?thesis
    by (simp add: stopAudio_simps stopAudio_idem)
qed

text \<open>Claim C3, as amended, on a new session, where no source is active, and on a session
  with one source playing when the interrupted signal arrives.\<close>

theorem interrupt_clears_witness:
  "activeSources established = [] \<and> activeSources (stopAudio established) = []
   \<and> trace (stopAudio established) = trace established
   \<and> interrupted interruptMessage \<and> reachesContent noTools interruptMessage
   \<and> activeSources bargeIn = [\<lparr>sid = 0, startAt = 5, bufferDuration = 2, playbackRate = 1\<rparr>]
   \<and> activeSources (state_of (onmessage noTools threeChunks interruptMessage bargeIn)) = []
   \<and> nextStartTime (state_of (onmessage noTools threeChunks interruptMessage bargeIn)) = 0
   \<and> SourceStopped 0 \<in> set (trace (state_of (onmessage noTools threeChunks interruptMessage bargeIn)))"
  using interrupt_clears [of bargeIn interruptMessage noTools threeChunks]
    interrupt_clears [of established]
  by (simp add: model_defs Let_def)

text \<open>
  Claim C3, as stated, fails: when playback is interrupted while the output clock reads 6,
  the clock position afterwards is not 6.
\<close>

theorem interrupt_clock_not_call_time:
  "audioContext bargeIn = Some 6 \<and> nextStartTime (stopAudio bargeIn) \<noteq> 6"
  by (simp add: model_defs Let_def)

subsection \<open>Stopping a session\<close>

text \<open>
  Claim C7, as amended. \<^verbatim>\<open>stop()\<close> stops the capture tracks, closes the capture audio
  context when there is one, and stops every active playback source, emptying the active
  set. This holds in every state, so also when closing the capture context fails because
  it was closed before: the rejection is swallowed and the playback sources are stopped
  all the same. The duplex channel is left as it was.
\<close>

theorem stop_releases:
  "stream (stop s) = Released
   \<and> (inputCtx s \<noteq> Absent \<longrightarrow> inputCtx (stop s) = Released)
   \<and> activeSources (stop s) = []
   \<and> trace (stop s) = trace s @ map (\<lambda>x. SourceStopped (sid x)) (activeSources s)
   \<and> channel (stop s) = channel s"
  by (cases "inputCtx s") (simp_all add: stop_def closeInputCtx_def stopAudio_def Let_def)

text \<open>Claim C7, as amended, on a session with one source playing, and once more on the
  stopped session, where closing the capture context is rejected.\<close>

theorem stop_releases_witness:
  "inputCtx bargeIn \<noteq> Absent \<and> stream (stop bargeIn) = Released
   \<and> inputCtx (stop bargeIn) = Released \<and> activeSources (stop bargeIn) = []
   \<and> fst (closeInputCtx (stop bargeIn)) = False
   \<and> inputCtx (stop (stop bargeIn)) = Released \<and> stream (stop (stop bargeIn)) = Released"
  using stop_releases [of bargeIn] stop_releases [of "stop bargeIn"]
  by (simp add: model_defs Let_def)

text \<open>Claim C7, as stated, fails: after \<^verbatim>\<open>stop()\<close> on an established session the
  channel is still held, not released.\<close>

theorem stop_leaves_channel_open:
  "channel established = Held \<and> channel (stop established) \<noteq> Released"
  by (simp add: model_defs Let_def)

subsection \<open>A refused microphone\<close>

text \<open>
  Claim C8 at the failing input. When \<^verbatim>\<open>getUserMedia\<close> rejects on a new service,
  \<^verbatim>\<open>connectLive\<close> reports \<^verbatim>\<open>MIC_ACCESS_DENIED\<close> through \<^verbatim>\<open>onError\<close> and returns
  \<^verbatim>\<open>null\<close>, and the capture audio context created just before is still held.
\<close>

theorem mic_denied_keeps_input_context:
  "fst (connectLive False initial) = False
   \<and> trace (snd (connectLive False initial)) = [OnError ''MIC_ACCESS_DENIED'']
   \<and> inputCtx initial = Absent
   \<and> inputCtx (snd (connectLive False initial)) = Held"
  by (simp add: model_defs Let_def)

subsection \<open>Transcripts\<close>

lemma turnCompletions_append [simp]:
  "turnCompletions (xs @ ys) = turnCompletions xs @ turnCompletions ys"
  by (simp add: turnCompletions_def)

lemma transcriptions_append [simp]:
  "transcriptions (xs @ ys) = transcriptions xs @ transcriptions ys"
  by (simp add: transcriptions_def)

lemma tools_silent:
  "turnCompletions (messageLoopTrace h m) = []" "transcriptions (messageLoopTrace h m) = []"
  "turnCompletions (messagePending h m) = []" "transcriptions (messagePending h m) = []"
  unfolding turnCompletions_def transcriptions_def
  by (rule project_tools; simp)+

lemma scheduleParts_silent:
  "turnCompletions q = [] \<Longrightarrow>
     turnCompletions (trace (snd (scheduleParts dec ps q s))) = turnCompletions (trace s)"
  "turnCompletions q = [] \<Longrightarrow> turnCompletions (fst (scheduleParts dec ps q s)) = []"
  "transcriptions q = [] \<Longrightarrow>
     transcriptions (trace (snd (scheduleParts dec ps q s))) = transcriptions (trace s)"
  "transcriptions q = [] \<Longrightarrow> transcriptions (fst (scheduleParts dec ps q s)) = []"
  unfolding turnCompletions_def transcriptions_def
  by (rule project_scheduleParts_quiet; simp)+

lemma interruptedSignal_silent:
  "turnCompletions (trace (interruptedSignal m s)) = turnCompletions (trace s)"
  "transcriptions (trace (interruptedSignal m s)) = transcriptions (trace s)"
  "currentOutputTranscription (interruptedSignal m s) = currentOutputTranscription s"
  "currentInputTranscription (interruptedSignal m s) = currentInputTranscription s"
  by (simp_all add: interruptedSignal_def stopAudio_def turnCompletions_def
      transcriptions_def comp_def)

lemma accumulate_buffers:
  "currentOutputTranscription (accumulateTranscription m s) =
     currentOutputTranscription s @ (case outputTranscription m of Some text \<Rightarrow> text | None \<Rightarrow> [])"
  "currentInputTranscription (accumulateTranscription m s) =
     currentInputTranscription s @ (case outputTranscription m of Some text \<Rightarrow> []
        | None \<Rightarrow> (case inputTranscription m of Some text \<Rightarrow> text | None \<Rightarrow> []))"
  "turnCompletions (trace (accumulateTranscription m s)) = turnCompletions (trace s)"
  by (simp_all add: accumulateTranscription_def emit_def Let_def turnCompletions_def
      split: option.splits)

lemma accumulate_transcriptions:
  "transcriptions (trace (accumulateTranscription m s)) = transcriptions (trace s) @
     (case outputTranscription m of
        Some text \<Rightarrow> [(currentOutputTranscription s @ text, False)]
      | None \<Rightarrow> (case inputTranscription m of
                   Some text \<Rightarrow> [(currentInputTranscription s @ text, True)]
                 | None \<Rightarrow> []))"
  by (simp add: accumulateTranscription_def emit_def Let_def transcriptions_def
      split: option.splits)

lemma completeTurn_effect:
  "turnComplete m \<Longrightarrow> currentOutputTranscription (completeTurn m s) = []"
  "turnComplete m \<Longrightarrow> currentInputTranscription (completeTurn m s) = []"
  "turnComplete m \<Longrightarrow> turnCompletions (trace (completeTurn m s)) =
     turnCompletions (trace s) @ [(currentInputTranscription s, currentOutputTranscription s)]"
  "\<not> turnComplete m \<Longrightarrow> completeTurn m s = s"
  "transcriptions (trace (completeTurn m s)) = transcriptions (trace s)"
  by (simp_all add: completeTurn_def emit_def turnCompletions_def transcriptions_def)

lemma onmessage_turn:
  "completesTurn h m \<Longrightarrow>
     currentOutputTranscription (state_of (onmessage h dec m s)) = []
   \<and> currentInputTranscription (state_of (onmessage h dec m s)) = []
   \<and> turnCompletions (trace (state_of (onmessage h dec m s))) = turnCompletions (trace s) @
       [(currentInputTranscription s @ appendedInput h m,
         currentOutputTranscription s @ appendedOutput h m)]"
  by (simp add: completesTurn_def onmessage_state runCallbacks_simps interruptedSignal_silent completeTurn_effect
      accumulate_buffers scheduleParts_silent scheduleParts_fields tools_silent
      appendedInput_def appendedOutput_def)

lemma onmessage_no_turn:
  "\<not> completesTurn h m \<Longrightarrow>
     currentOutputTranscription (state_of (onmessage h dec m s)) =
       currentOutputTranscription s @ appendedOutput h m
   \<and> currentInputTranscription (state_of (onmessage h dec m s)) =
       currentInputTranscription s @ appendedInput h m
   \<and> turnCompletions (trace (state_of (onmessage h dec m s))) = turnCompletions (trace s)"
  by (cases "reachesContent h m")
     (simp_all add: completesTurn_def onmessage_state runCallbacks_simps interruptedSignal_silent
      completeTurn_effect accumulate_buffers scheduleParts_silent scheduleParts_fields
      tools_silent appendedInput_def appendedOutput_def)

lemma arrivals_within_turn:
  "\<forall>tm \<in> set tms. \<not> completesTurn h (snd tm) \<Longrightarrow>
     currentOutputTranscription (arrivals h dec tms s) =
       currentOutputTranscription s @ concat (map (\<lambda>tm. appendedOutput h (snd tm)) tms)
   \<and> currentInputTranscription (arrivals h dec tms s) =
       currentInputTranscription s @ concat (map (\<lambda>tm. appendedInput h (snd tm)) tms)
   \<and> turnCompletions (trace (arrivals h dec tms s)) = turnCompletions (trace s)"
proof (induction tms arbitrary: s)
  case Nil
  show ?case by simp
next
  case (Cons tm tms)
  obtain t m where tm: "tm = (t, m)" by (cases tm)
  have "\<not> completesTurn h m" using Cons.prems tm by simp
  note step = onmessage_no_turn [OF this, of dec "advanceClock t s"]
  have rest: "\<forall>tm \<in> set tms. \<not> completesTurn h (snd tm)" using Cons.prems by simp
  show ?case
    using Cons.IH [OF rest, of "state_of (onmessage h dec m (advanceClock t s))"] step
    by (simp add: tm advanceClock_simps)
qed

text \<open>
  Claim C5. Start where both buffers are empty, as they are at session start and after
  every completed turn. Let messages arrive of which none completes a turn, and then one
  whose turn-complete signal is observed. Then \<^verbatim>\<open>onTurnComplete\<close> is called once more,
  with the concatenation, in arrival order, of the fragments appended to the input buffer
  and with that of the fragments appended to the output buffer by all these messages, the
  last one included; afterwards both buffers are empty again.
\<close>

theorem turn_complete_concatenates:
  assumes "currentInputTranscription s = []" and "currentOutputTranscription s = []"
    and "\<forall>tm \<in> set tms. \<not> completesTurn h (snd tm)"
    and "completesTurn h m"
  shows "turnCompletions (trace (arrivals h dec (tms @ [(t, m)]) s)) =
           turnCompletions (trace s) @
             [(concat (map (\<lambda>tm. appendedInput h (snd tm)) (tms @ [(t, m)])),
               concat (map (\<lambda>tm. appendedOutput h (snd tm)) (tms @ [(t, m)])))]
       \<and> currentInputTranscription (arrivals h dec (tms @ [(t, m)]) s) = []
       \<and> currentOutputTranscription (arrivals h dec (tms @ [(t, m)]) s) = []"
  using arrivals_within_turn [OF assms(3), of dec s]
    onmessage_turn [OF assms(4), of dec "advanceClock t (arrivals h dec tms s)"] assms(1,2)
  by (simp add: arrivals_append advanceClock_simps)

text \<open>Claim C5 on the first turn of a session: the user's \<open>Hi\<close>, then \<open>Hel\<close> and \<open>lo\<close>
  from the model, the turn completing with the last fragment.\<close>

theorem turn_complete_concatenates_witness:
  "currentInputTranscription established = [] \<and> currentOutputTranscription established = []
   \<and> \<not> completesTurn noTools heardUser \<and> \<not> completesTurn noTools saidFirst
   \<and> completesTurn noTools saidLast
   \<and> turnCompletions (trace (arrivals noTools threeChunks
        ([(0, heardUser), (1, saidFirst)] @ [(2, saidLast)]) established)) = [(''Hi'', ''Hello'')]
   \<and> currentInputTranscription (arrivals noTools threeChunks
        ([(0, heardUser), (1, saidFirst)] @ [(2, saidLast)]) established) = []
   \<and> currentOutputTranscription (arrivals noTools threeChunks
        ([(0, heardUser), (1, saidFirst)] @ [(2, saidLast)]) established) = []"
  using turn_complete_concatenates [of established "[(0, heardUser), (1, saidFirst)]" noTools
      saidLast threeChunks 2]
  by (simp add: model_defs Let_def)

text \<open>
  Claim C10. When a message carries both an output fragment and an input fragment, the
  transcription step appends the output fragment to the output buffer and leaves the
  input buffer as it was. For the whole handler this means: nothing is appended to the
  input buffer; the only \<^verbatim>\<open>onTranscription\<close> call is the one for the output
  direction, made when the handler gets past the tool calls; and at the end the input
  buffer is as before and the output buffer has gained the output fragment, or, when the
  message also completes the turn, \<^verbatim>\<open>onTurnComplete\<close> has received the input buffer
  without the input fragment and the output buffer with the output fragment.
\<close>

theorem output_fragment_wins:
  assumes "outputTranscription m = Some out" and "inputTranscription m = Some inp"
  shows "currentOutputTranscription (accumulateTranscription m s) =
           currentOutputTranscription s @ out
       \<and> currentInputTranscription (accumulateTranscription m s) = currentInputTranscription s
       \<and> appendedInput h m = []
       \<and> appendedOutput h m = (if reachesContent h m then out else [])
       \<and> transcriptions (trace (state_of (onmessage h dec m s))) =
           transcriptions (trace s) @
             (if reachesContent h m then [(currentOutputTranscription s @ out, False)] else [])
       \<and> (if completesTurn h m
          then turnCompletions (trace (state_of (onmessage h dec m s))) =
                 turnCompletions (trace s) @
                   [(currentInputTranscription s, currentOutputTranscription s @ out)]
          else currentOutputTranscription (state_of (onmessage h dec m s)) =
                 currentOutputTranscription s @ (if reachesContent h m then out else [])
             \<and> currentInputTranscription (state_of (onmessage h dec m s)) =
                 currentInputTranscription s)"
proof -
  have app: "appendedOutput h m = (if reachesContent h m then out else [])"
      "appendedInput h m = []"
    using assms by (simp_all add: appendedOutput_def appendedInput_def)
  have tr: "transcriptions (trace (state_of (onmessage h dec m s))) =
           transcriptions (trace s) @
             (if reachesContent h m then [(currentOutputTranscription s @ out, False)] else [])"
    using assms
    by (simp add: onmessage_state runCallbacks_simps interruptedSignal_silent
        completeTurn_effect accumulate_transcriptions scheduleParts_silent scheduleParts_fields tools_silent)
  have acc: "currentOutputTranscription (accumulateTranscription m s) =
           currentOutputTranscription s @ out"
    "currentInputTranscription (accumulateTranscription m s) = currentInputTranscription s"
    using assms by (simp_all add: accumulate_buffers)
  show ?thesis
  proof (cases "completesTurn h m")
    case True
    then have "reachesContent h m" by (simp add: completesTurn_def)
    with onmessage_turn [OF True, of dec s] show ?thesis
      using True tr acc app by simp
  next
    case False
    from onmessage_no_turn [OF this, of dec s] show ?thesis
      using False tr acc app by simp
  qed
qed

text \<open>Claim C10 on a message with \<open>Hello\<close> for the output and \<open>Hi\<close> for the input
  direction, at session start: the input buffer stays empty.\<close>

theorem output_fragment_wins_witness:
  "outputTranscription bothFragments = Some ''Hello''
   \<and> inputTranscription bothFragments = Some ''Hi''
   \<and> reachesContent noTools bothFragments \<and> \<not> completesTurn noTools bothFragments
   \<and> currentOutputTranscription
       (state_of (onmessage noTools threeChunks bothFragments established)) = ''Hello''
   \<and> currentInputTranscription
       (state_of (onmessage noTools threeChunks bothFragments established)) = []
   \<and> transcriptions (trace (state_of (onmessage noTools threeChunks bothFragments established)))
       = [(''Hello'', False)]"
  using output_fragment_wins [of bothFragments "''Hello''" "''Hi''" established noTools
      threeChunks]
  by (simp add: model_defs Let_def)

subsection \<open>Back-to-back playback\<close>



lemma startedSources_append [simp]:
  "startedSources (xs @ ys) = startedSources xs @ startedSources ys"
  by (simp add: startedSources_def)

lemma startedSources_started [simp]: "startedSources [SourceStarted x] = [x]"
  by (simp add: startedSources_def)




















end
